theory Spec2Isabelle
  imports Main "HOL-Library.Multiset" "HOL-Library.Sublist"
begin

section \<open>Characters and their classes\<close>

text \<open>
  A Python \<open>str\<close> is a sequence of code points. The model takes the code points
  U+0000 to U+00FF, one per \<^typ>\<open>char\<close>; \<open>isupper\<close> and \<open>isspace\<close> are Python's
  \<open>str.isupper\<close> and \<open>str.isspace\<close> on that range (the regular-expression class
  \<open>\s\<close> of a \<open>str\<close> pattern is the same set as \<open>str.isspace\<close>).
\<close>

definition newline :: char where
  "newline = CHR 0x0A"

definition space :: char where
  "space = CHR 0x20"

definition isupper :: "char \<Rightarrow> bool" where
  "isupper c =
     (let n = (of_char c :: nat)
      in (65 \<le> n \<and> n \<le> 90) \<or> (192 \<le> n \<and> n \<le> 214) \<or> (216 \<le> n \<and> n \<le> 222))"

definition isspace :: "char \<Rightarrow> bool" where
  "isspace c =
     (let n = (of_char c :: nat)
      in (9 \<le> n \<and> n \<le> 13) \<or> (28 \<le> n \<and> n \<le> 32) \<or> n = 133 \<or> n = 160)"

text \<open>\<open>forbidden = set('"([{/-,.:; ')\<close>, line 28 of the source.\<close>

definition forbidden :: "char set" where
  "forbidden = set [CHR 0x22, CHR ''('', CHR ''['', CHR ''{'', CHR ''/'', CHR ''-'',
                    CHR '','', CHR ''.'', CHR '':'', CHR '';'', CHR '' '']"

text \<open>The character class \<open>[.!?]\<close> of the look-behind in line 85.\<close>

definition is_terminal :: "char \<Rightarrow> bool" where
  "is_terminal c = (c = CHR ''.'' \<or> c = CHR ''!'' \<or> c = CHR ''?'')"

section \<open>Errors\<close>

text \<open>
  The source raises nothing itself; the only exception its statements could raise is the
  \<open>IndexError\<close> of a subscript \<open>text[k]\<close> out of range. Every subscript of the source goes
  through \<open>getitem\<close>, so that a failing read is a value of the model.
  The cursors \<open>i\<close> and \<open>j\<close> start at 0 and are only incremented, and the one subtraction
  \<open>i-1\<close> is evaluated only after \<open>i == 0\<close> was found false, so cursors are natural numbers.
\<close>

datatype error = IndexError

definition getitem :: "string \<Rightarrow> nat \<Rightarrow> error + char" where
  "getitem text k = (if k < length text then Inr (text ! k) else Inl IndexError)"

section \<open>The segmenter: \<open>heuristic_insert_linebreaks\<close>\<close>

text \<open>
  Lines 39 to 41: \<open>while j < n and text[j].isupper(): result.append(text[j]); j += 1\<close>.
  The loop state is the pair of \<open>j\<close> and \<open>result\<close>.
\<close>

function copy_upper :: "string \<Rightarrow> nat \<Rightarrow> string \<Rightarrow> error + (nat \<times> string)" where
  "copy_upper text j result =
     (if j < length text then
        (case getitem text j of
           Inl e \<Rightarrow> Inl e
         | Inr c \<Rightarrow>
             if isupper c then copy_upper text (j + 1) (result @ [c])
             else Inr (j, result))
      else Inr (j, result))"
  by pat_completeness auto
termination
  by (relation "measure (\<lambda>(text, j, result). length text - j)") auto

declare copy_upper.simps [simp del]

text \<open>
  Lines 49 to 51: \<open>while j < n and text[j].isupper(): group_len += 1; j += 1\<close>.
\<close>

function count_upper :: "string \<Rightarrow> nat \<Rightarrow> nat \<Rightarrow> error + (nat \<times> nat)" where
  "count_upper text j group_len =
     (if j < length text then
        (case getitem text j of
           Inl e \<Rightarrow> Inl e
         | Inr c \<Rightarrow>
             if isupper c then count_upper text (j + 1) (group_len + 1)
             else Inr (j, group_len))
      else Inr (j, group_len))"
  by pat_completeness auto
termination
  by (relation "measure (\<lambda>(text, j, group_len). length text - j)") auto

declare count_upper.simps [simp del]

text \<open>
  Lines 55 to 57 and 61 to 63: \<open>while i < j: result.append(text[i]); i += 1\<close>.
\<close>

function copy_range :: "string \<Rightarrow> nat \<Rightarrow> nat \<Rightarrow> string \<Rightarrow> error + (nat \<times> string)" where
  "copy_range text i j result =
     (if i < j then
        (case getitem text i of
           Inl e \<Rightarrow> Inl e
         | Inr c \<Rightarrow> copy_range text (i + 1) j (result @ [c]))
      else Inr (i, result))"
  by pat_completeness auto
termination
  by (relation "measure (\<lambda>(text, i, j, result). j - i)") auto

declare copy_range.simps [simp del]

text \<open>
  The test of line 37, \<open>i == 0 or text[i-1] in forbidden\<close>: the subscript is read only
  when \<open>i\<close> is not 0.
\<close>

definition start_or_forbidden :: "string \<Rightarrow> nat \<Rightarrow> error + bool" where
  "start_or_forbidden text i =
     (if i = 0 then Inr True
      else (case getitem text (i - 1) of
              Inl e \<Rightarrow> Inl e
            | Inr p \<Rightarrow> Inr (p \<in> forbidden)))"

text \<open>The outer loop, lines 31 to 67, on the state \<open>i\<close>, \<open>result\<close>.\<close>

function hil_loop :: "string \<Rightarrow> nat \<Rightarrow> string \<Rightarrow> error + string" where
  "hil_loop text i result =
     (if i < length text then
        (case getitem text i of
           Inl e \<Rightarrow> Inl e
         | Inr char \<Rightarrow>
             if isupper char then
               (case start_or_forbidden text i of
                  Inl e \<Rightarrow> Inl e
                | Inr True \<Rightarrow>
                    (case copy_upper text i result of
                       Inl e \<Rightarrow> Inl e
                     | Inr (j, result') \<Rightarrow> hil_loop text j result')
                | Inr False \<Rightarrow>
                    (case count_upper text i 0 of
                       Inl e \<Rightarrow> Inl e
                     | Inr (j, group_len) \<Rightarrow>
                         if group_len \<le> 2 then
                           (case copy_range text i j (result @ [newline]) of
                              Inl e \<Rightarrow> Inl e
                            | Inr (i', result') \<Rightarrow> hil_loop text i' result')
                         else
                           (case copy_range text i j result of
                              Inl e \<Rightarrow> Inl e
                            | Inr (i', result') \<Rightarrow> hil_loop text i' result')))
             else hil_loop text (i + 1) (result @ [char]))
      else Inr result)"
  by pat_completeness auto
termination
proof -
  have cu: "j \<le> j' \<and> j' \<le> max j (length t)"
    if "copy_upper t j r = Inr (j', r')" for t j r j' r'
    using that
  proof (induction t j r rule: copy_upper.induct)
    case (1 t j result)
    show ?case
    proof (cases "j < length t \<and> isupper (t ! j)")
      case True
      with 1 show ?thesis
        by (subst (asm) (2) copy_upper.simps) (fastforce simp: getitem_def)
    next
      case False
      with "1.prems" show ?thesis
        by (subst (asm) copy_upper.simps) (auto simp: getitem_def split: if_splits)
    qed
  qed
  have cn: "j \<le> j' \<and> j' \<le> max j (length t)"
    if "count_upper t j g = Inr (j', g')" for t j g j' g'
    using that
  proof (induction t j g rule: count_upper.induct)
    case (1 t j g)
    show ?case
    proof (cases "j < length t \<and> isupper (t ! j)")
      case True
      with 1 show ?thesis
        by (subst (asm) (2) count_upper.simps) (fastforce simp: getitem_def)
    next
      case False
      with "1.prems" show ?thesis
        by (subst (asm) count_upper.simps) (auto simp: getitem_def split: if_splits)
    qed
  qed
  have cr: "i' = max i j"
    if "copy_range t i j r = Inr (i', r')" for t i j r i' r'
    using that
  proof (induction t i j r rule: copy_range.induct)
    case (1 t i j r)
    show ?case
    proof (cases "i < j")
      case True
      with 1 show ?thesis
        by (subst (asm) (2) copy_range.simps) (fastforce split: sum.splits)
    next
      case False
      with "1.prems" show ?thesis
        by (subst (asm) copy_range.simps) auto
    qed
  qed
  have step_cu: "i < j \<and> j \<le> length t"
    if "i < length t" "getitem t i = Inr c" "isupper c" "copy_upper t i r = Inr (j, r')"
    for t i c r j r'
  proof -
    from that have "copy_upper t i r = copy_upper t (i + 1) (r @ [c])"
      by (subst copy_upper.simps) simp
    with that cu [of t "i + 1" "r @ [c]" j r'] show ?thesis
      by auto
  qed
  have step_cn: "i < j \<and> j \<le> length t"
    if "i < length t" "getitem t i = Inr c" "isupper c" "count_upper t i 0 = Inr (j, g)"
    for t i c j g
  proof -
    from that have "count_upper t i 0 = count_upper t (i + 1) (0 + 1)"
      by (subst count_upper.simps) simp
    with that cn [of t "i + 1" "0 + 1" j g] show ?thesis
      by auto
  qed
  show ?thesis
  proof (relation "measure (\<lambda>(t, i, result). length t - i)")
    show "wf (measure (\<lambda>(t, i, result). length t - i))"
      by simp
  next
    fix t :: string and i result b ba bb x y
    assume "i < length t" "getitem t i = Inr b" "isupper b"
      "copy_upper t i result = Inr bb" "(x, y) = bb"
    then show "((t, x, y), t, i, result) \<in> measure (\<lambda>(t, i, result). length t - i)"
      using step_cu [of i t b result x y] by auto
  next
    fix t :: string and i result b ba bb x y bc xa ya
    assume "i < length t" "getitem t i = Inr b" "isupper b"
      "count_upper t i 0 = Inr bb" "(x, y) = bb"
      "copy_range t i x (result @ [newline]) = Inr bc" "(xa, ya) = bc"
    then show "((t, xa, ya), t, i, result) \<in> measure (\<lambda>(t, i, result). length t - i)"
      using step_cn [of i t b x y] cr [of t i x "result @ [newline]" xa ya] by auto
  next
    fix t :: string and i result b ba bb x y bc xa ya
    assume "i < length t" "getitem t i = Inr b" "isupper b"
      "count_upper t i 0 = Inr bb" "(x, y) = bb"
      "copy_range t i x result = Inr bc" "(xa, ya) = bc"
    then show "((t, xa, ya), t, i, result) \<in> measure (\<lambda>(t, i, result). length t - i)"
      using step_cn [of i t b x y] cr [of t i x result xa ya] by auto
  next
    fix t :: string and i :: nat and result :: string and b :: char
    assume "i < length t"
    then show "((t, i + 1, result @ [b]), t, i, result)
        \<in> measure (\<lambda>(t, i, result). length t - i)"
      by simp
  qed
qed

declare hil_loop.simps [simp del]

text \<open>Lines 25 to 30 and 68: the loop starts at \<open>i = 0\<close> with an empty \<open>result\<close>.\<close>

definition heuristic_insert_linebreaks :: "string \<Rightarrow> error + string" where
  "heuristic_insert_linebreaks text = hil_loop text 0 []"

section \<open>The joiner: \<open>restore_separators\<close>\<close>

text \<open>
  Line 82, \<open>re.sub(r'\n+', ' ', text)\<close>: every maximal run of line feeds becomes one space.
\<close>

function sub_newlines :: "string \<Rightarrow> string" where
  "sub_newlines [] = []"
| "sub_newlines (c # cs) =
     (if c = newline then space # sub_newlines (dropWhile (\<lambda>x. x = newline) cs)
      else c # sub_newlines cs)"
  by pat_completeness auto
termination
  by (relation "measure length") (auto simp: less_Suc_eq_le length_dropWhile_le)

text \<open>
  Line 85, \<open>re.split(r'(?<=[.!?])\s+', text)\<close>. The scan goes left to right; \<open>prev\<close> is
  the character before the current position (\<open>None\<close> at position 0), which the look-behind
  \<open>(?<=[.!?])\<close> reads. A match starts where the look-behind holds and the current character
  is whitespace; \<open>\s+\<close> is greedy, so the match is the whole whitespace run. The text before
  a match is a piece (it may be empty), the match is dropped, and the scan resumes after it.
  The result is the list of pieces, the first one at the head.
\<close>

definition lookbehind :: "char option \<Rightarrow> bool" where
  "lookbehind prev = (case prev of None \<Rightarrow> False | Some p \<Rightarrow> is_terminal p)"

function re_split_from :: "char option \<Rightarrow> string \<Rightarrow> string list" where
  "re_split_from prev [] = [[]]"
| "re_split_from prev (c # cs) =
     (if lookbehind prev \<and> isspace c then
        [] # re_split_from (Some (last (c # takeWhile isspace cs))) (dropWhile isspace cs)
      else
        (case re_split_from (Some c) cs of
           [] \<Rightarrow> [[c]]
         | p # ps \<Rightarrow> (c # p) # ps))"
  by pat_completeness auto
termination
  by (relation "measure (\<lambda>(prev, xs). length xs)") (auto simp: less_Suc_eq_le length_dropWhile_le)

definition re_split :: "string \<Rightarrow> string list" where
  "re_split text = re_split_from None text"

text \<open>\<open>s.strip()\<close>: leading and trailing whitespace removed.\<close>

definition strip :: "string \<Rightarrow> string" where
  "strip s = rev (dropWhile isspace (rev (dropWhile isspace s)))"

text \<open>\<open>separator.join(sentences)\<close>.\<close>

fun str_join :: "string \<Rightarrow> string list \<Rightarrow> string" where
  "str_join sep [] = []"
| "str_join sep [s] = s"
| "str_join sep (s # u # ss) = s @ sep @ str_join sep (u # ss)"

text \<open>
  Lines 82 to 86 compute the list \<open>sentences\<close>; line 86 is
  \<open>[s.strip() for s in sentences if s.strip()]\<close>, and a string is true when it is not empty.
\<close>

definition sentences :: "string \<Rightarrow> error + string list" where
  "sentences text =
     (case heuristic_insert_linebreaks (sub_newlines text) of
        Inl e \<Rightarrow> Inl e
      | Inr text' \<Rightarrow> Inr (map strip (filter (\<lambda>s. strip s \<noteq> []) (re_split text'))))"

definition restore_separators :: "string \<Rightarrow> string \<Rightarrow> error + string" where
  "restore_separators text separator =
     (case sentences text of
        Inl e \<Rightarrow> Inl e
      | Inr ss \<Rightarrow> Inr (str_join separator ss))"

section \<open>The scan without cursors\<close>

text \<open>
  The outer loop of the segmenter as a function of the text still to be read. \<open>ctx\<close> is the
  outcome of the test of line 37 at the current position: the position is 0 or the
  character before it is forbidden. At an uppercase letter the whole uppercase block
  (\<open>takeWhile isupper\<close>) is emitted, after a line feed when the test failed and the block
  has at most 2 letters. \<open>hil_loop_segment\<close> below proves the loop equal to it.
\<close>

function segment :: "bool \<Rightarrow> string \<Rightarrow> string" where
  "segment ctx [] = []"
| "segment ctx (c # cs) =
     (if isupper c then
        (if \<not> ctx \<and> length (c # takeWhile isupper cs) \<le> 2 then [newline] else [])
          @ (c # takeWhile isupper cs) @ segment False (dropWhile isupper cs)
      else c # segment (c \<in> forbidden) cs)"
  by pat_completeness auto
termination
  by (relation "measure (\<lambda>(ctx, xs). length xs)") (auto simp: less_Suc_eq_le length_dropWhile_le)

section \<open>Properties of strings used by the claims\<close>

definition nonspace :: "char \<Rightarrow> bool" where
  "nonspace c = (\<not> isspace c)"

text \<open>The non-whitespace characters of a string, in order.\<close>

definition content :: "string \<Rightarrow> string" where
  "content s = filter nonspace s"

text \<open>The string with its line feeds deleted.\<close>

definition delete_breaks :: "string \<Rightarrow> string" where
  "delete_breaks s = filter (\<lambda>c. c \<noteq> newline) s"



text \<open>The string is empty or starts and ends with a character that is not whitespace.\<close>

definition trimmed :: "string \<Rightarrow> bool" where
  "trimmed s = (case s of [] \<Rightarrow> True | c # cs \<Rightarrow> nonspace c \<and> nonspace (last s))"

section \<open>The joiner as the specification words it\<close>

text \<open>
  Section 4.2 of the specification, steps 2 to 4. Step 2: a split point is where a terminal
  mark is immediately followed by whitespace, and it falls after the whitespace, so a
  candidate ends with the mark and the whitespace run that follows it.
\<close>

function spec_candidates :: "string \<Rightarrow> string list" where
  "spec_candidates [] = [[]]"
| "spec_candidates (c # cs) =
     (if is_terminal c \<and> takeWhile isspace cs \<noteq> [] then
        (c # takeWhile isspace cs) # spec_candidates (dropWhile isspace cs)
      else
        (case spec_candidates cs of
           [] \<Rightarrow> [[c]]
         | p # ps \<Rightarrow> (c # p) # ps))"
  by pat_completeness auto
termination
  by (relation "measure length") (auto simp: less_Suc_eq_le length_dropWhile_le)

text \<open>
  Step 3, trimming: the whitespace at the start of a candidate is removed character by
  character, and so is the whitespace at its end (a character is kept when it is not
  whitespace or when something is kept after it).
\<close>

fun spec_trim_leading :: "string \<Rightarrow> string" where
  "spec_trim_leading [] = []"
| "spec_trim_leading (c # cs) = (if isspace c then spec_trim_leading cs else c # cs)"

fun spec_trim_trailing :: "string \<Rightarrow> string" where
  "spec_trim_trailing [] = []"
| "spec_trim_trailing (c # cs) =
     (if isspace c \<and> spec_trim_trailing cs = [] then [] else c # spec_trim_trailing cs)"

definition spec_trim :: "string \<Rightarrow> string" where
  "spec_trim s = spec_trim_trailing (spec_trim_leading s)"

text \<open>
  Step 4, joining: the first sentence, then the separator and the sentence for each
  further one, in the order of the list.
\<close>

definition spec_join :: "string \<Rightarrow> string list \<Rightarrow> string" where
  "spec_join separator ss =
     (case ss of [] \<Rightarrow> [] | s # rest \<Rightarrow> s @ concat (map (\<lambda>x. separator @ x) rest))"

text \<open>Steps 2 to 4: trim every candidate, discard the empty ones, join the rest.\<close>

definition spec_joiner :: "string \<Rightarrow> string \<Rightarrow> string" where
  "spec_joiner text separator =
     spec_join separator (filter (\<lambda>s. s \<noteq> []) (map spec_trim (spec_candidates text)))"

section \<open>Character classes\<close>

lemma isupper_not_isspace: "isupper c \<Longrightarrow> \<not> isspace c"
  by (auto simp: isupper_def isspace_def Let_def)

lemma isupper_not_forbidden: "isupper c \<Longrightarrow> c \<notin> forbidden"
  by (auto simp: isupper_def forbidden_def Let_def)

lemma isupper_not_newline: "isupper c \<Longrightarrow> c \<noteq> newline"
  by (auto simp: isupper_def newline_def Let_def)

lemma isspace_newline: "isspace newline"
  by (simp add: isspace_def newline_def)

lemma isspace_space: "isspace space"
  by (simp add: isspace_def space_def)

lemma is_terminal_not_isspace: "is_terminal c \<Longrightarrow> \<not> isspace c"
  by (auto simp: is_terminal_def isspace_def)

section \<open>The loops of the segmenter compute the cursor-free scan\<close>

lemma copy_upper_eq:
  "copy_upper t j r =
     Inr (j + length (takeWhile isupper (drop j t)), r @ takeWhile isupper (drop j t))"
proof (induction t j r rule: copy_upper.induct)
  case (1 t j result)
  show ?case
  proof (cases "j < length t")
    case True
    then have d: "drop j t = t ! j # drop (Suc j) t"
      by (simp add: Cons_nth_drop_Suc)
    show ?thesis
    proof (cases "isupper (t ! j)")
      case True
      with \<open>j < length t\<close> 1 d show ?thesis
        by (subst copy_upper.simps) (simp add: getitem_def)
    next
      case False
      with \<open>j < length t\<close> d show ?thesis
        by (subst copy_upper.simps) (simp add: getitem_def)
    qed
  next
    case False
    then show ?thesis
      by (subst copy_upper.simps) simp
  qed
qed

lemma count_upper_eq:
  "count_upper t j g =
     Inr (j + length (takeWhile isupper (drop j t)), g + length (takeWhile isupper (drop j t)))"
proof (induction t j g rule: count_upper.induct)
  case (1 t j g)
  show ?case
  proof (cases "j < length t")
    case True
    then have d: "drop j t = t ! j # drop (Suc j) t"
      by (simp add: Cons_nth_drop_Suc)
    show ?thesis
    proof (cases "isupper (t ! j)")
      case True
      with \<open>j < length t\<close> 1 d show ?thesis
        by (subst count_upper.simps) (simp add: getitem_def)
    next
      case False
      with \<open>j < length t\<close> d show ?thesis
        by (subst count_upper.simps) (simp add: getitem_def)
    qed
  next
    case False
    then show ?thesis
      by (subst count_upper.simps) simp
  qed
qed

lemma copy_range_eq:
  "i \<le> j \<Longrightarrow> j \<le> length t \<Longrightarrow>
     copy_range t i j r = Inr (j, r @ take (j - i) (drop i t))"
proof (induction t i j r rule: copy_range.induct)
  case (1 t i j r)
  show ?case
  proof (cases "i < j")
    case True
    with 1 have d: "drop i t = t ! i # drop (Suc i) t"
      by (simp add: Cons_nth_drop_Suc)
    from True obtain k where k: "j - i = Suc k" "j - Suc i = k"
      by (cases "j - i") auto
    from True 1 d k show ?thesis
      by (subst copy_range.simps) (simp add: getitem_def)
  next
    case False
    with 1 show ?thesis
      by (subst copy_range.simps) simp
  qed
qed

lemma segment_ctx_irrelevant:
  "xs = [] \<or> \<not> isupper (hd xs) \<Longrightarrow> segment a xs = segment b xs"
  by (cases xs) auto

lemma dropWhile_hd_not: "dropWhile P xs = [] \<or> \<not> P (hd (dropWhile P xs))"
  by (metis hd_dropWhile)

lemma hil_loop_segment:
  "i \<le> length t \<Longrightarrow>
     hil_loop t i r = Inr (r @ segment (i = 0 \<or> t ! (i - 1) \<in> forbidden) (drop i t))"
proof (induction t i r rule: hil_loop.induct)
  case (1 t i r)
  show ?case
  proof (cases "i < length t")
    case False
    with "1.prems" show ?thesis
      by (subst hil_loop.simps) simp
  next
    case True
    define c where "c = t ! i"
    define rest where "rest = drop (Suc i) t"
    define ctx where "ctx = (i = 0 \<or> t ! (i - 1) \<in> forbidden)"
    from True have d: "drop i t = c # rest"
      by (simp add: Cons_nth_drop_Suc c_def rest_def)
    from True have g: "getitem t i = Inr c"
      by (simp add: getitem_def c_def)
    from True have sf: "start_or_forbidden t i = Inr ctx"
      by (auto simp: start_or_forbidden_def getitem_def ctx_def)
    show ?thesis
    proof (cases "isupper c")
      case False
      from True g False have "hil_loop t i r = hil_loop t (i + 1) (r @ [c])"
        by (subst hil_loop.simps) simp
      also from True g False
      have "\<dots> = Inr ((r @ [c]) @ segment (i + 1 = 0 \<or> t ! (i + 1 - 1) \<in> forbidden) (drop (i + 1) t))"
        by (intro "1.IH"(4)) simp_all
      also have "\<dots> = Inr (r @ segment ctx (drop i t))"
        using False by (simp add: d c_def rest_def)
      finally show ?thesis
        by (simp add: ctx_def)
    next
      case up: True
      define run where "run = c # takeWhile isupper rest"
      define j where "j = i + length run"
      have run: "takeWhile isupper (drop i t) = run"
        using up by (simp add: d run_def)
      have jle: "j \<le> length t"
      proof -
        have "length run \<le> length (drop i t)"
          unfolding run [symmetric] by (rule length_takeWhile_le)
        with True show ?thesis
          by (simp add: j_def)
      qed
      have ij: "i \<le> j"
        by (simp add: j_def)
      have dj: "drop j t = dropWhile isupper rest"
      proof -
        have "drop j t = drop (length run) (drop i t)"
          by (simp add: j_def add.commute)
        also have "\<dots> = dropWhile isupper (drop i t)"
          unfolding run [symmetric] by (simp add: dropWhile_eq_drop)
        finally show ?thesis
          using up by (simp add: d)
      qed
      have tk: "take (j - i) (drop i t) = run"
        using takeWhile_eq_take [of isupper "drop i t"] by (simp add: j_def run)
      have cu: "copy_upper t i r = Inr (j, r @ run)"
        by (simp add: copy_upper_eq run j_def)
      have cn: "count_upper t i 0 = Inr (j, length run)"
        by (simp add: count_upper_eq run j_def)
      have irr: "segment b (drop j t) = segment False (dropWhile isupper rest)" for b
        unfolding dj by (rule segment_ctx_irrelevant) (rule dropWhile_hd_not)
      show ?thesis
      proof (cases ctx)
        case True
        from \<open>i < length t\<close> g up sf True cu
        have "hil_loop t i r = hil_loop t j (r @ run)"
          by (subst hil_loop.simps) simp
        also from \<open>i < length t\<close> g up sf True cu jle
        have "\<dots> = Inr ((r @ run) @ segment (j = 0 \<or> t ! (j - 1) \<in> forbidden) (drop j t))"
          by (intro "1.IH"(1) [of c ctx "(j, r @ run)"]) simp_all
        also have "\<dots> = Inr (r @ segment ctx (drop i t))"
          using up True by (simp add: d irr run_def)
        finally show ?thesis
          by (simp add: ctx_def)
      next
        case nctx: False
        show ?thesis
        proof (cases "length run \<le> 2")
          case True
          have cr: "copy_range t i j (r @ [newline]) = Inr (j, (r @ [newline]) @ run)"
            using copy_range_eq [OF ij jle, of "r @ [newline]"] by (simp add: tk)
          from \<open>i < length t\<close> g up sf nctx cn True cr
          have "hil_loop t i r = hil_loop t j ((r @ [newline]) @ run)"
            by (subst hil_loop.simps) simp
          also from \<open>i < length t\<close> g up sf nctx cn True cr jle
          have "\<dots> = Inr (((r @ [newline]) @ run)
                     @ segment (j = 0 \<or> t ! (j - 1) \<in> forbidden) (drop j t))"
            by (intro "1.IH"(2) [of c ctx "(j, length run)" j "length run"
                  "(j, (r @ [newline]) @ run)"]) simp_all
          also have "\<dots> = Inr (r @ segment ctx (drop i t))"
            using up nctx True by (simp add: d irr run_def)
          finally show ?thesis
            by (simp add: ctx_def)
        next
          case False
          have cr: "copy_range t i j r = Inr (j, r @ run)"
            using copy_range_eq [OF ij jle, of r] by (simp add: tk)
          from \<open>i < length t\<close> g up sf nctx cn False cr
          have "hil_loop t i r = hil_loop t j (r @ run)"
            by (subst hil_loop.simps) simp
          also from \<open>i < length t\<close> g up sf nctx cn False cr jle
          have "\<dots> = Inr ((r @ run) @ segment (j = 0 \<or> t ! (j - 1) \<in> forbidden) (drop j t))"
            by (intro "1.IH"(3) [of c ctx "(j, length run)" j "length run" "(j, r @ run)"])
              simp_all
          also have "\<dots> = Inr (r @ segment ctx (drop i t))"
            using up nctx False by (simp add: d irr run_def)
          finally show ?thesis
            by (simp add: ctx_def)
        qed
      qed
    qed
  qed
qed

lemma heuristic_segment: "heuristic_insert_linebreaks t = Inr (segment True t)"
  by (simp add: heuristic_insert_linebreaks_def hil_loop_segment)

section \<open>Properties of the scan\<close>

lemma segment_no_upper: "\<forall>c\<in>set s. \<not> isupper c \<Longrightarrow> segment ctx s = s"
  by (induction s arbitrary: ctx) auto

lemma filter_segment:
  "\<not> P newline \<Longrightarrow> filter P (segment ctx s) = filter P s"
proof (induction ctx s rule: segment.induct)
  case (1 ctx)
  show ?case by simp
next
  case (2 ctx c cs)
  show ?case
  proof (cases "isupper c")
    case True
    have "filter P cs = filter P (takeWhile isupper cs @ dropWhile isupper cs)"
      by simp
    also have "\<dots> = filter P (takeWhile isupper cs) @ filter P (dropWhile isupper cs)"
      by (rule filter_append)
    finally show ?thesis
      using True 2 by simp
  next
    case False
    with 2 show ?thesis by simp
  qed
qed

lemma content_segment: "content (segment ctx s) = content s"
  by (simp add: content_def filter_segment nonspace_def isspace_newline)

lemma delete_breaks_segment: "delete_breaks (segment ctx s) = delete_breaks s"
  by (simp add: delete_breaks_def filter_segment)

lemma delete_breaks_id: "newline \<notin> set s \<Longrightarrow> delete_breaks s = s"
  by (induction s) (auto simp: delete_breaks_def)

lemma take1_segment: "take 1 (segment True s) = take 1 s"
  by (cases s) auto

lemma segment_append:
  "xs \<noteq> [] \<Longrightarrow> \<not> isupper (last xs) \<Longrightarrow>
     segment ctx (xs @ ys) = segment ctx xs @ segment (last xs \<in> forbidden) ys"
proof (induction ctx xs rule: segment.induct)
  case (1 ctx)
  then show ?case by simp
next
  case (2 ctx c cs)
  show ?case
  proof (cases "isupper c")
    case True
    with "2.prems" have ne: "cs \<noteq> []"
      by auto
    with "2.prems" have l: "last cs \<in> set cs" "\<not> isupper (last cs)"
      by auto
    then have tw: "takeWhile isupper (cs @ ys) = takeWhile isupper cs"
      and dw: "dropWhile isupper (cs @ ys) = dropWhile isupper cs @ ys"
      by (simp_all add: takeWhile_append1 dropWhile_append1)
    from l have dne: "dropWhile isupper cs \<noteq> []"
      by (auto simp: dropWhile_eq_Nil_conv)
    have "last (takeWhile isupper cs @ dropWhile isupper cs) = last (dropWhile isupper cs)"
      using dne by (rule last_appendR)
    then have dl: "last (dropWhile isupper cs) = last cs"
      by simp
    from "2.IH"(1) [OF True dne] l dl
    have "segment False (dropWhile isupper cs @ ys) =
            segment False (dropWhile isupper cs) @ segment (last cs \<in> forbidden) ys"
      by simp
    with True ne show ?thesis
      by (simp add: tw dw)
  next
    case False
    show ?thesis
    proof (cases "cs = []")
      case True
      with False show ?thesis by simp
    next
      case ne: False
      with "2.IH"(2) [OF False] "2.prems" False show ?thesis
        by simp
    qed
  qed
qed

lemma segment_run:
  assumes "run \<noteq> []" "\<forall>c\<in>set run. isupper c" "post = [] \<or> \<not> isupper (hd post)"
  shows "segment ctx (run @ post) =
           (if \<not> ctx \<and> length run \<le> 2 then [newline] else []) @ run @ segment True post"
proof -
  from assms(1) obtain c cs where r: "run = c # cs"
    by (cases run) auto
  with assms(2) have up: "isupper c" "\<forall>x\<in>set cs. isupper x"
    by auto
  have tw: "takeWhile isupper (cs @ post) = cs"
  proof (cases post)
    case Nil
    with up show ?thesis by simp
  next
    case (Cons p ps)
    with assms(3) up show ?thesis
      by (simp add: takeWhile_append2 takeWhile_tail)
  qed
  have dw: "dropWhile isupper (cs @ post) = post"
  proof (cases post)
    case Nil
    with up show ?thesis by simp
  next
    case (Cons p ps)
    with assms(3) up show ?thesis
      by (simp add: dropWhile_append2)
  qed
  have "segment False post = segment True post"
    using assms(3) by (rule segment_ctx_irrelevant)
  with up show ?thesis
    by (simp add: r tw dw)
qed

section \<open>Claims about the segmenter\<close>

text \<open>
  Claim C2. Take a maximal uppercase run of the text that does not start at position 0 and
  whose preceding character is not forbidden: the text is \<open>pre @ run @ post\<close>, \<open>pre\<close> ends
  with a character that is neither uppercase nor forbidden, and \<open>post\<close> is empty or starts
  with a character that is not uppercase. Then the segmenter's output is its output on
  \<open>pre\<close>, a line feed exactly when the run has at most 2 letters, the run itself, and its
  output on \<open>post\<close>. In particular \<open>"wordXy"\<close> becomes \<open>"word\nXy"\<close> and \<open>"worldWAR"\<close> is unchanged.
\<close>

theorem C2_break_iff_short_run:
  assumes "pre \<noteq> []" and "\<not> isupper (last pre)" and "last pre \<notin> forbidden"
    and "run \<noteq> []" and "\<forall>c\<in>set run. isupper c"
    and "post = [] \<or> \<not> isupper (hd post)"
  shows "(\<exists>a b. heuristic_insert_linebreaks pre = Inr a
            \<and> heuristic_insert_linebreaks post = Inr b
            \<and> heuristic_insert_linebreaks (pre @ run @ post) =
                Inr (a @ (if length run \<le> 2 then [newline] else []) @ run @ b))
       \<and> heuristic_insert_linebreaks ''wordXy'' = Inr ''word\<newline>Xy''
       \<and> heuristic_insert_linebreaks ''worldWAR'' = Inr ''worldWAR''"
proof -
  have "segment True (pre @ run @ post) = segment True pre @ segment False (run @ post)"
    using assms(1-3) by (simp add: segment_append)
  also have "segment False (run @ post) =
      (if length run \<le> 2 then [newline] else []) @ run @ segment True post"
    using assms(4-6) by (simp add: segment_run)
  finally have general: "\<exists>a b. heuristic_insert_linebreaks pre = Inr a
            \<and> heuristic_insert_linebreaks post = Inr b
            \<and> heuristic_insert_linebreaks (pre @ run @ post) =
                Inr (a @ (if length run \<le> 2 then [newline] else []) @ run @ b)"
    by (simp add: heuristic_segment)
  have e1: "heuristic_insert_linebreaks ''wordXy'' = Inr ''word\<newline>Xy''"
    by code_simp
  have e2: "heuristic_insert_linebreaks ''worldWAR'' = Inr ''worldWAR''"
    by code_simp
  from general e1 e2 show ?thesis
    by blast
qed

theorem C2_witness:
  "\<not> isupper (last ''sent'') \<and> last ''sent'' \<notin> forbidden
   \<and> heuristic_insert_linebreaks (''sent'' @ ''AB'' @ ''c d'') = Inr ''sent\<newline>ABc d''
   \<and> heuristic_insert_linebreaks (''sent'' @ ''ABC'' @ ''c d'') = Inr ''sentABCc d''"
proof -
  have h: "''sent'' \<noteq> []" "\<not> isupper (last ''sent'')" "last ''sent'' \<notin> forbidden"
    "''AB'' \<noteq> []" "\<forall>c\<in>set ''AB''. isupper c" "''c d'' = [] \<or> \<not> isupper (hd ''c d'')"
    "''ABC'' \<noteq> []" "\<forall>c\<in>set ''ABC''. isupper c"
    by code_simp+
  have p: "heuristic_insert_linebreaks ''sent'' = Inr ''sent''"
    "heuristic_insert_linebreaks ''c d'' = Inr ''c d''"
    by code_simp+
  from C2_break_iff_short_run [OF h(1-6)] p
  have a: "heuristic_insert_linebreaks (''sent'' @ ''AB'' @ ''c d'') = Inr ''sent\<newline>ABc d''"
    by (auto simp: newline_def)
  from C2_break_iff_short_run [OF h(1-3) h(7,8) h(6)] p
  have b: "heuristic_insert_linebreaks (''sent'' @ ''ABC'' @ ''c d'') = Inr ''sentABCc d''"
    by auto
  from h(2,3) a b show ?thesis
    by blast
qed

text \<open>
  Claim C3. A maximal uppercase run that starts at position 0, or whose preceding character
  is forbidden, is copied with no line feed before it: for the text \<open>pre @ run @ post\<close> with
  \<open>pre\<close> empty or ending with a forbidden character, the output is the output on \<open>pre\<close>, the
  run, and the output on \<open>post\<close>. In particular \<open>"(A) test"\<close> is unchanged, and the first
  character of the output is the first character of the text, so no line feed is inserted
  at the start.
\<close>

theorem C3_no_break_at_start_or_after_forbidden:
  assumes "pre = [] \<or> last pre \<in> forbidden"
    and "run \<noteq> []" and "\<forall>c\<in>set run. isupper c"
    and "post = [] \<or> \<not> isupper (hd post)"
  shows "(\<exists>a b. heuristic_insert_linebreaks pre = Inr a
            \<and> heuristic_insert_linebreaks post = Inr b
            \<and> heuristic_insert_linebreaks (pre @ run @ post) = Inr (a @ run @ b))
       \<and> heuristic_insert_linebreaks ''(A) test'' = Inr ''(A) test''
       \<and> (\<exists>r. heuristic_insert_linebreaks s = Inr r \<and> take 1 r = take 1 s)"
proof -
  have run: "segment True (run @ post) = run @ segment True post"
    using assms(2-4) by (simp add: segment_run)
  have "segment True (pre @ run @ post) = segment True pre @ run @ segment True post"
  proof (cases "pre = []")
    case True
    with run show ?thesis by simp
  next
    case False
    with assms(1) have f: "last pre \<in> forbidden"
      by simp
    then have "\<not> isupper (last pre)"
      using isupper_not_forbidden by blast
    with False f run show ?thesis
      by (simp add: segment_append)
  qed
  then have general: "\<exists>a b. heuristic_insert_linebreaks pre = Inr a
            \<and> heuristic_insert_linebreaks post = Inr b
            \<and> heuristic_insert_linebreaks (pre @ run @ post) = Inr (a @ run @ b)"
    by (simp add: heuristic_segment)
  have e: "heuristic_insert_linebreaks ''(A) test'' = Inr ''(A) test''"
    by code_simp
  have st: "\<exists>r. heuristic_insert_linebreaks s = Inr r \<and> take 1 r = take 1 s"
    using take1_segment [of s] by (simp add: heuristic_segment)
  from general e st show ?thesis
    by blast
qed

theorem C3_witness:
  "last ''a ('' \<in> forbidden
   \<and> heuristic_insert_linebreaks (''a ('' @ ''B'' @ '') c'') = Inr ''a (B) c''
   \<and> heuristic_insert_linebreaks ([] @ ''H'' @ ''i there'') = Inr ''Hi there''"
proof -
  have h: "''a ('' = [] \<or> last ''a ('' \<in> forbidden" "''B'' \<noteq> []" "\<forall>c\<in>set ''B''. isupper c"
    "'') c'' = [] \<or> \<not> isupper (hd '') c'')"
    by code_simp+
  have k: "([]::string) = [] \<or> last [] \<in> forbidden"
    by simp
  have k': "''H'' \<noteq> []" "\<forall>c\<in>set ''H''. isupper c"
    "''i there'' = [] \<or> \<not> isupper (hd ''i there'')"
    by code_simp+
  have h': "last ''a ('' \<in> forbidden"
    by code_simp
  have p: "heuristic_insert_linebreaks ''a ('' = Inr ''a (''"
    "heuristic_insert_linebreaks '') c'' = Inr '') c''"
    "heuristic_insert_linebreaks [] = Inr []"
    "heuristic_insert_linebreaks ''i there'' = Inr ''i there''"
    by code_simp+
  from C3_no_break_at_start_or_after_forbidden [OF h(1-4)] p
  have a: "heuristic_insert_linebreaks (''a ('' @ ''B'' @ '') c'') = Inr ''a (B) c''"
    by auto
  from C3_no_break_at_start_or_after_forbidden [OF k k'] p
  have b: "heuristic_insert_linebreaks ([] @ ''H'' @ ''i there'') = Inr ''Hi there''"
    by auto
  from h' a b show ?thesis
    by blast
qed

text \<open>
  Claim C6. For every string, the segmenter returns a string whose non-whitespace
  characters are, as a multiset, the non-whitespace characters of the input.
\<close>

theorem C6_segmenter_preserves_content:
  "\<exists>r. heuristic_insert_linebreaks s = Inr r \<and> mset (content r) = mset (content s)"
  by (simp add: heuristic_segment content_segment)

theorem C6_witness:
  "heuristic_insert_linebreaks ''ab Cd eF'' = Inr ''ab Cd e\<newline>F''
   \<and> mset (content ''ab Cd e\<newline>F'') = mset (content ''ab Cd eF'')"
proof -
  have p: "heuristic_insert_linebreaks ''ab Cd eF'' = Inr ''ab Cd e\<newline>F''"
    by code_simp
  from C6_segmenter_preserves_content [of "''ab Cd eF''"] p show ?thesis
    by auto
qed

text \<open>
  Claim C7. On a string with no uppercase letter the segmenter is the identity.
\<close>

theorem C7_identity_without_uppercase:
  assumes "\<forall>c\<in>set s. \<not> isupper c"
  shows "heuristic_insert_linebreaks s = Inr s"
  using assms by (simp add: heuristic_segment segment_no_upper)

theorem C7_witness:
  "heuristic_insert_linebreaks ''no capitals, here. (1/2)'' = Inr ''no capitals, here. (1/2)''"
proof -
  have h: "\<forall>c\<in>set ''no capitals, here. (1/2)''. \<not> isupper c"
    by code_simp
  from C7_identity_without_uppercase [OF h] show ?thesis .
qed

text \<open>
  Claim C9. For every string with no line feed, deleting the line feeds from the segmenter's
  output gives back the input: every character is emitted unchanged and in order, and
  only line feeds are inserted.
\<close>

theorem C9_deleting_breaks_restores_input:
  assumes "newline \<notin> set s"
  shows "\<exists>r. heuristic_insert_linebreaks s = Inr r \<and> delete_breaks r = s"
  using assms by (simp add: heuristic_segment delete_breaks_segment delete_breaks_id)

theorem C9_witness:
  "heuristic_insert_linebreaks ''oneTwo THREEfourFi'' = Inr ''one\<newline>Two THREEfour\<newline>Fi''
   \<and> delete_breaks ''one\<newline>Two THREEfour\<newline>Fi'' = ''oneTwo THREEfourFi''"
proof -
  have h: "newline \<notin> set ''oneTwo THREEfourFi''"
    by code_simp
  have p: "heuristic_insert_linebreaks ''oneTwo THREEfourFi'' = Inr ''one\<newline>Two THREEfour\<newline>Fi''"
    by code_simp
  from C9_deleting_breaks_restores_input [OF h] p show ?thesis
    by auto
qed

section \<open>Trimming and joining\<close>

lemma filter_not_dropWhile: "filter (\<lambda>c. \<not> Q c) (dropWhile Q xs) = filter (\<lambda>c. \<not> Q c) xs"
  by (induction xs) auto

lemma content_dropWhile: "content (dropWhile isspace xs) = content xs"
  using filter_not_dropWhile [of isspace xs] by (simp add: content_def nonspace_def [abs_def])

lemma content_rev: "content (rev xs) = rev (content xs)"
  by (simp add: content_def rev_filter)

lemma content_Nil: "content [] = []"
  by (simp add: content_def)

lemma content_Cons: "content (c # cs) = (if isspace c then content cs else c # content cs)"
  by (simp add: content_def nonspace_def)

lemma content_append: "content (xs @ ys) = content xs @ content ys"
  by (simp add: content_def)

lemma content_strip: "content (strip s) = content s"
  by (simp add: strip_def content_rev content_dropWhile)

lemma content_whitespace: "\<forall>c\<in>set w. isspace c \<Longrightarrow> content w = []"
  by (induction w) (auto simp: content_def nonspace_def)

lemma dropWhile_whitespace_append:
  "\<forall>c\<in>set w. isspace c \<Longrightarrow> dropWhile isspace (w @ p) = dropWhile isspace p"
  by (induction w) auto

lemma strip_prepend_whitespace: "\<forall>c\<in>set w. isspace c \<Longrightarrow> strip (w @ p) = strip p"
  by (simp add: strip_def dropWhile_whitespace_append)

lemma strip_append_whitespace:
  assumes "\<forall>c\<in>set w. isspace c"
  shows "strip (p @ w) = strip p"
proof (cases "dropWhile isspace p = []")
  case True
  then have "\<forall>c\<in>set p. isspace c"
    by (simp add: dropWhile_eq_Nil_conv)
  with assms have "\<forall>c\<in>set (p @ w). isspace c"
    by auto
  then have "dropWhile isspace (p @ w) = []"
    by (simp only: dropWhile_eq_Nil_conv)
  then show ?thesis
    by (simp only: strip_def True)
next
  case False
  then obtain x where x: "x \<in> set p" "\<not> isspace x"
    by (auto simp: dropWhile_eq_Nil_conv)
  then have "dropWhile isspace (p @ w) = dropWhile isspace p @ w"
    by (simp add: dropWhile_append1)
  moreover from assms have "\<forall>c\<in>set (rev w). isspace c"
    by simp
  then have "dropWhile isspace (rev w @ rev (dropWhile isspace p))
               = dropWhile isspace (rev (dropWhile isspace p))"
    by (rule dropWhile_whitespace_append)
  ultimately show ?thesis
    by (simp add: strip_def)
qed

lemma trimmed_strip: "trimmed (strip s)"
proof (cases "strip s")
  case Nil
  then show ?thesis by (simp add: trimmed_def)
next
  case (Cons x xs)
  define A where "A = dropWhile isspace s"
  define B where "B = dropWhile isspace (rev A)"
  have s: "strip s = rev B"
    by (simp add: strip_def A_def B_def)
  with Cons have Bne: "B \<noteq> []"
    by auto
  then have hdB: "\<not> isspace (hd B)"
    unfolding B_def by (metis hd_dropWhile)
  from Bne have Ane: "A \<noteq> []"
    by (auto simp: B_def)
  then have hdA: "\<not> isspace (hd A)"
    unfolding A_def by (metis hd_dropWhile)
  have "rev A = takeWhile isspace (rev A) @ B"
    by (simp add: B_def)
  then have "last (rev A) = last B"
    using Bne by (metis last_appendR)
  with Ane have lastB: "last B = hd A"
    by (simp add: last_rev)
  from Bne have "hd (rev B) = last B" "last (rev B) = hd B"
    by (simp_all add: hd_rev last_rev)
  with hdA hdB lastB Cons s show ?thesis
    by (auto simp: trimmed_def nonspace_def)
qed

lemma str_join_Cons:
  "str_join sep (s # ss) = (if ss = [] then s else s @ sep @ str_join sep ss)"
  by (cases ss) auto

lemma content_str_join:
  "\<forall>c\<in>set sep. isspace c \<Longrightarrow> content (str_join sep ss) = concat (map content ss)"
  by (induction ss) (simp_all add: str_join_Cons content_append content_whitespace)

lemma str_join_ends:
  assumes "ss \<noteq> []" "\<forall>s\<in>set ss. s \<noteq> []"
  shows "str_join sep ss \<noteq> [] \<and> hd (str_join sep ss) = hd (hd ss)
         \<and> last (str_join sep ss) = last (last ss)"
  using assms
proof (induction ss)
  case Nil
  then show ?case by simp
next
  case (Cons s ss)
  show ?case
  proof (cases "ss = []")
    case True
    with Cons.prems show ?thesis by simp
  next
    case False
    with Cons have "str_join sep ss \<noteq> []" "last (str_join sep ss) = last (last ss)"
      by auto
    with False Cons.prems show ?thesis
      by (simp add: str_join_Cons)
  qed
qed

section \<open>Normalisation and splitting\<close>


lemma content_sub_newlines: "content (sub_newlines s) = content s"
proof (induction s rule: sub_newlines.induct)
  case 1
  show ?case by simp
next
  case (2 c cs)
  show ?case
  proof (cases "c = newline")
    case True
    have "\<forall>x\<in>set (takeWhile (\<lambda>x. x = newline) cs). isspace x"
      by (auto dest: set_takeWhileD simp: isspace_newline)
    then have "content (takeWhile (\<lambda>x. x = newline) cs) = []"
      by (rule content_whitespace)
    then have "content cs = content (dropWhile (\<lambda>x. x = newline) cs)"
      using content_append [of "takeWhile (\<lambda>x. x = newline) cs" "dropWhile (\<lambda>x. x = newline) cs"]
      by simp
    with True 2 show ?thesis
      by (simp add: content_def nonspace_def isspace_newline isspace_space)
  next
    case False
    with 2 show ?thesis
      by (simp add: content_def)
  qed
qed

lemma re_split_from_nonempty: "re_split_from prev xs \<noteq> []"
  by (cases xs) (auto split: list.splits)

lemma re_split_from_Cons:
  "re_split_from prev (c # cs) =
     (if lookbehind prev \<and> isspace c then
        [] # re_split_from (Some (last (c # takeWhile isspace cs))) (dropWhile isspace cs)
      else (c # hd (re_split_from (Some c) cs)) # tl (re_split_from (Some c) cs))"
  using re_split_from_nonempty [of "Some c" cs] by (auto split: list.splits)

lemma content_re_split_from: "concat (map content (re_split_from prev xs)) = content xs"
proof (induction prev xs rule: re_split_from.induct)
  case (1 prev)
  show ?case by (simp add: content_def)
next
  case (2 prev c cs)
  show ?case
  proof (cases "lookbehind prev \<and> isspace c")
    case True
    with 2 show ?thesis
      by (simp add: content_Cons content_Nil content_dropWhile)
  next
    case False
    obtain p ps where r: "re_split_from (Some c) cs = p # ps"
      using re_split_from_nonempty [of "Some c" cs] by (cases "re_split_from (Some c) cs") auto
    with False 2 have "concat (map content (p # ps)) = content cs"
      by simp
    moreover from False r have "re_split_from prev (c # cs) = (c # p) # ps"
      by (simp only: re_split_from_Cons if_False list.sel)
    ultimately show ?thesis
      by (simp add: content_Cons)
  qed
qed






section \<open>Line feeds of the output\<close>






lemma rstrip_Cons:
  "rev (dropWhile isspace (rev (c # cs))) =
     (if (\<forall>x\<in>set cs. isspace x) \<and> isspace c then []
      else c # rev (dropWhile isspace (rev cs)))"
  by (auto simp: dropWhile_append dropWhile_eq_Nil_conv)



lemma content_kept_sentences:
  "concat (map content (map strip (filter (\<lambda>s. strip s \<noteq> []) ps))) = concat (map content ps)"
proof (induction ps)
  case Nil
  show ?case by simp
next
  case (Cons p ps)
  show ?case
  proof (cases "strip p = []")
    case True
    then have "content p = []"
      using content_strip [of p] by (simp add: content_def)
    with True Cons show ?thesis
      by simp
  next
    case False
    with Cons show ?thesis
      by (simp add: content_strip)
  qed
qed

lemma sentences_eq:
  "sentences t =
     Inr (map strip (filter (\<lambda>s. strip s \<noteq> []) (re_split (segment True (sub_newlines t)))))"
  by (simp add: sentences_def heuristic_segment)

lemma restore_separators_eq:
  "restore_separators t sep =
     Inr (str_join sep
           (map strip (filter (\<lambda>s. strip s \<noteq> []) (re_split (segment True (sub_newlines t))))))"
  by (simp add: restore_separators_def sentences_eq)

section \<open>Claims about \<open>restore_separators\<close>\<close>

text \<open>
  Claim C8. The segmenter and \<open>restore_separators\<close> return a string on every input: no
  subscript of the loops is ever out of range, and every loop ends (the strings with no
  uppercase letter and the strings entirely uppercase are among the inputs).
  On the empty string \<open>restore_separators\<close> returns the empty string, whatever the separator.
\<close>

theorem C8_total:
  "(\<exists>r. heuristic_insert_linebreaks s = Inr r)
   \<and> (\<exists>r. restore_separators s sep = Inr r)
   \<and> restore_separators [] sep = Inr []"
proof -
  have "restore_separators [] sep = Inr []"
    by (simp add: restore_separators_eq re_split_def strip_def)
  then show ?thesis
    by (simp add: heuristic_segment restore_separators_eq)
qed

theorem C8_witness:
  "heuristic_insert_linebreaks ''ABC'' = Inr ''ABC''
   \<and> restore_separators ''ABC'' ''; '' = Inr ''ABC''
   \<and> restore_separators [] ''; '' = Inr []"
proof -
  have p: "heuristic_insert_linebreaks ''ABC'' = Inr ''ABC''"
    "restore_separators ''ABC'' ''; '' = Inr ''ABC''"
    by code_simp+
  from C8_total [of "''ABC''" "''; ''"] p show ?thesis
    by blast
qed

text \<open>
  Claim C10. The output of \<open>restore_separators\<close> is empty, or its first and its last
  character are not whitespace.
\<close>

theorem C10_output_trimmed:
  "\<exists>r. restore_separators t sep = Inr r
       \<and> (r = [] \<or> (\<not> isspace (hd r) \<and> \<not> isspace (last r)))"
proof -
  define ss where
    "ss = map strip (filter (\<lambda>s. strip s \<noteq> []) (re_split (segment True (sub_newlines t))))"
  have r: "restore_separators t sep = Inr (str_join sep ss)"
    by (simp add: restore_separators_eq ss_def)
  have ne: "\<forall>s\<in>set ss. s \<noteq> []"
    by (auto simp: ss_def)
  have tr: "\<forall>s\<in>set ss. trimmed s"
    by (auto simp: ss_def trimmed_strip)
  show ?thesis
  proof (cases "ss = []")
    case True
    with r show ?thesis by simp
  next
    case False
    from str_join_ends [OF False ne, of sep]
    have j: "hd (str_join sep ss) = hd (hd ss)" "last (str_join sep ss) = last (last ss)"
      by simp_all
    from False have "hd ss \<in> set ss" "last ss \<in> set ss"
      by simp_all
    with ne tr have "hd ss \<noteq> []" "trimmed (hd ss)" "last ss \<noteq> []" "trimmed (last ss)"
      by blast+
    then have "nonspace (hd (hd ss))" "nonspace (last (last ss))"
      by (auto simp: trimmed_def split: list.splits)
    with j r show ?thesis
      by (simp add: nonspace_def)
  qed
qed

theorem C10_witness:
  "restore_separators ''  One. two!   '' '' '' = Inr ''One. two!''
   \<and> \<not> isspace (hd ''One. two!'') \<and> \<not> isspace (last ''One. two!'')"
proof -
  have p: "restore_separators ''  One. two!   '' '' '' = Inr ''One. two!''"
    by code_simp
  from C10_output_trimmed [of "''  One. two!   ''" "'' ''"] p show ?thesis
    by auto
qed

text \<open>
  Claim C4, as amended. The output is the list of sentences joined by the separator, and
  the sentences hold, in order, exactly the non-whitespace characters of the input. When
  the separator consists of whitespace only, the non-whitespace characters of the output
  are exactly those of the input, in the same order.
\<close>

theorem C4_content_preserved:
  "\<exists>ss. sentences t = Inr ss
        \<and> restore_separators t sep = Inr (str_join sep ss)
        \<and> concat (map content ss) = content t
        \<and> ((\<forall>c\<in>set sep. isspace c) \<longrightarrow> content (str_join sep ss) = content t)"
proof -
  define ss where
    "ss = map strip (filter (\<lambda>s. strip s \<noteq> []) (re_split (segment True (sub_newlines t))))"
  have s: "sentences t = Inr ss"
    by (simp add: sentences_eq ss_def)
  have r: "restore_separators t sep = Inr (str_join sep ss)"
    by (simp add: restore_separators_eq ss_def)
  have "concat (map content ss) = concat (map content (re_split (segment True (sub_newlines t))))"
    unfolding ss_def by (rule content_kept_sentences)
  also have "\<dots> = content (segment True (sub_newlines t))"
    by (simp add: re_split_def content_re_split_from)
  also have "\<dots> = content t"
    by (simp add: content_segment content_sub_newlines)
  finally have c: "concat (map content ss) = content t" .
  then have "(\<forall>c\<in>set sep. isspace c) \<longrightarrow> content (str_join sep ss) = content t"
    by (simp add: content_str_join)
  with s r c show ?thesis
    by blast
qed

theorem C4_witness:
  "sentences ''one.  twoThree'' = Inr [''one.'', ''two\<newline>Three'']
   \<and> restore_separators ''one.  twoThree'' ''  '' = Inr ''one.  two\<newline>Three''
   \<and> content ''one.  two\<newline>Three'' = content ''one.  twoThree''"
proof -
  have p: "sentences ''one.  twoThree'' = Inr [''one.'', ''two\<newline>Three'']"
    "restore_separators ''one.  twoThree'' ''  '' = Inr ''one.  two\<newline>Three''"
    by code_simp+
  have h: "\<forall>c\<in>set ''  ''. isspace c"
    by code_simp
  from C4_content_preserved [of "''one.  twoThree''" "''  ''"] h p show ?thesis
    by auto
qed

theorem C4_counterexample:
  "restore_separators ''a. b'' ''X'' = Inr ''a.Xb''
   \<and> CHR ''X'' \<in> set (content ''a.Xb'') \<and> CHR ''X'' \<notin> set (content ''a. b'')"
  by code_simp




section \<open>The split of the code and the split of the specification\<close>

lemma spec_candidates_nonempty: "spec_candidates xs \<noteq> []"
  by (cases xs) (auto split: list.splits)

lemma spec_candidates_Cons:
  "spec_candidates (c # cs) =
     (if is_terminal c \<and> takeWhile isspace cs \<noteq> [] then
        (c # takeWhile isspace cs) # spec_candidates (dropWhile isspace cs)
      else (c # hd (spec_candidates cs)) # tl (spec_candidates cs))"
  using spec_candidates_nonempty [of cs] by (auto split: list.splits)

lemma concat_spec_candidates: "concat (spec_candidates xs) = xs"
proof (induction xs rule: spec_candidates.induct)
  case 1
  show ?case by simp
next
  case (2 c cs)
  show ?case
  proof (cases "is_terminal c \<and> takeWhile isspace cs \<noteq> []")
    case True
    with 2 have "concat (spec_candidates (dropWhile isspace cs)) = dropWhile isspace cs"
      by blast
    moreover have "spec_candidates (c # cs) =
        (c # takeWhile isspace cs) # spec_candidates (dropWhile isspace cs)"
      by (subst spec_candidates_Cons) (rule if_P [OF True])
    ultimately show ?thesis
      by (simp del: spec_candidates.simps)
  next
    case False
    with 2 have "concat (spec_candidates cs) = cs"
      by blast
    moreover have "spec_candidates cs = hd (spec_candidates cs) # tl (spec_candidates cs)"
      using spec_candidates_nonempty [of cs] by simp
    ultimately have "hd (spec_candidates cs) @ concat (tl (spec_candidates cs)) = cs"
      by (metis concat.simps(2))
    moreover have "spec_candidates (c # cs) =
        (c # hd (spec_candidates cs)) # tl (spec_candidates cs)"
      by (subst spec_candidates_Cons) (rule if_not_P [OF False])
    ultimately show ?thesis
      by (simp del: spec_candidates.simps)
  qed
qed

lemma takeWhile_nonempty_iff: "takeWhile P xs \<noteq> [] \<longleftrightarrow> xs \<noteq> [] \<and> P (hd xs)"
  by (cases xs) auto

lemma split_related:
  "\<not> (lookbehind prev \<and> xs \<noteq> [] \<and> isspace (hd xs)) \<Longrightarrow>
     list_all2 (\<lambda>p q. \<exists>w. q = p @ w \<and> (\<forall>c\<in>set w. isspace c))
       (re_split_from prev xs) (spec_candidates xs)"
proof (induction xs arbitrary: prev rule: length_induct)
  case (1 xs)
  let ?Rel = "\<lambda>p q. \<exists>w. q = p @ w \<and> (\<forall>c\<in>set w. isspace c)"
  show ?case
  proof (cases xs)
    case Nil
    then show ?thesis by simp
  next
    case (Cons c cs)
    with "1.prems" have nomatch: "\<not> (lookbehind prev \<and> isspace c)"
      by simp
    have lhs: "re_split_from prev (c # cs) =
        (c # hd (re_split_from (Some c) cs)) # tl (re_split_from (Some c) cs)"
      by (subst re_split_from_Cons) (rule if_not_P [OF nomatch])
    show ?thesis
    proof (cases "is_terminal c \<and> takeWhile isspace cs \<noteq> []")
      case True
      then obtain d ds where cs: "cs = d # ds" and d: "isspace d"
        by (cases cs) (auto split: if_splits)
      let ?D = "dropWhile isspace cs"
      let ?p = "Some (last (d # takeWhile isspace ds))"
      from True have lb: "lookbehind (Some c)"
        by (simp add: lookbehind_def)
      from d have D: "dropWhile isspace ds = ?D"
        by (simp add: cs)
      from lb d have "lookbehind (Some c) \<and> isspace d"
        by simp
      then have "re_split_from (Some c) (d # ds) = [] # re_split_from ?p (dropWhile isspace ds)"
        by (subst re_split_from_Cons) (rule if_P)
      then have "re_split_from (Some c) cs = [] # re_split_from ?p ?D"
        by (simp only: D cs [symmetric])
      with lhs have l: "re_split_from prev (c # cs) = [c] # re_split_from ?p ?D"
        by simp
      have r: "spec_candidates (c # cs) =
          (c # takeWhile isspace cs) # spec_candidates ?D"
        by (subst spec_candidates_Cons) (rule if_P [OF True])
      have "length ?D < length xs"
        using length_dropWhile_le [of isspace cs] by (simp add: Cons)
      moreover have "\<not> (lookbehind ?p \<and> ?D \<noteq> [] \<and> isspace (hd ?D))"
        using dropWhile_hd_not [of isspace cs] by blast
      ultimately have ih: "list_all2 ?Rel (re_split_from ?p ?D) (spec_candidates ?D)"
        using "1.IH" by blast
      have "\<forall>x\<in>set (takeWhile isspace cs). isspace x"
        by (auto dest: set_takeWhileD)
      then have "?Rel [c] (c # takeWhile isspace cs)"
        by simp
      with ih show ?thesis
        unfolding Cons l r by simp
    next
      case False
      let ?R = "re_split_from (Some c) cs" and ?S = "spec_candidates cs"
      have r: "spec_candidates (c # cs) = (c # hd ?S) # tl ?S"
        by (subst spec_candidates_Cons) (rule if_not_P [OF False])
      from False have "\<not> (lookbehind (Some c) \<and> cs \<noteq> [] \<and> isspace (hd cs))"
        by (simp add: lookbehind_def takeWhile_nonempty_iff)
      moreover have "length cs < length xs"
        by (simp add: Cons)
      ultimately have ih: "list_all2 ?Rel ?R ?S"
        using "1.IH" by blast
      obtain p ps where R: "?R = p # ps"
        using re_split_from_nonempty [of "Some c" cs] by (cases ?R) auto
      obtain q qs where S: "?S = q # qs"
        using spec_candidates_nonempty [of cs] by (cases ?S) auto
      from ih R S have "?Rel p q" "list_all2 ?Rel ps qs"
        by simp_all
      then have "?Rel (c # p) (c # q)" "list_all2 ?Rel ps qs"
        by auto
      then show ?thesis
        unfolding Cons lhs r R S by simp
    qed
  qed
qed

lemma sentences_related:
  "list_all2 (\<lambda>p q. \<exists>w. q = p @ w \<and> (\<forall>c\<in>set w. isspace c)) ps qs \<Longrightarrow>
     map strip (filter (\<lambda>s. strip s \<noteq> []) ps) = filter (\<lambda>s. s \<noteq> []) (map strip qs)"
proof (induction ps qs rule: list_all2_induct)
  case Nil
  show ?case by simp
next
  case (Cons p ps q qs)
  from Cons(1) have "strip q = strip p"
    by (auto simp: strip_append_whitespace)
  with Cons(3) show ?case
    by simp
qed

section \<open>Trimming and joining as the specification words them\<close>

lemma spec_trim_leading_eq: "spec_trim_leading s = dropWhile isspace s"
  by (induction s) auto

lemma rstrip_Nil_iff: "rev (dropWhile isspace (rev s)) = [] \<longleftrightarrow> (\<forall>x\<in>set s. isspace x)"
  by (simp add: dropWhile_eq_Nil_conv)

lemma spec_trim_trailing_eq: "spec_trim_trailing s = rev (dropWhile isspace (rev s))"
proof (induction s)
  case Nil
  show ?case by simp
next
  case (Cons c cs)
  have "spec_trim_trailing (c # cs) =
      (if isspace c \<and> spec_trim_trailing cs = [] then [] else c # spec_trim_trailing cs)"
    by simp
  also have "\<dots> = (if (\<forall>x\<in>set cs. isspace x) \<and> isspace c then []
                    else c # rev (dropWhile isspace (rev cs)))"
    unfolding Cons.IH rstrip_Nil_iff by (simp add: conj_commute)
  also have "\<dots> = rev (dropWhile isspace (rev (c # cs)))"
    by (rule rstrip_Cons [symmetric])
  finally show ?case .
qed

lemma strip_spec_trim: "strip s = spec_trim s"
  by (simp add: strip_def spec_trim_def spec_trim_leading_eq spec_trim_trailing_eq)

lemma str_join_spec_join: "str_join sep ss = spec_join sep ss"
proof (induction ss)
  case Nil
  show ?case by (simp add: spec_join_def)
next
  case (Cons s ss)
  then show ?case
    by (cases ss) (simp_all add: spec_join_def)
qed

lemma sep_str_join:
  "ss \<noteq> [] \<Longrightarrow> sep @ str_join sep ss = concat (map (\<lambda>s. sep @ s) ss)"
  by (cases ss) (simp_all add: str_join_spec_join spec_join_def)

lemma strip_decompose:
  "c = takeWhile isspace c @ strip c @ rev (takeWhile isspace (rev (dropWhile isspace c)))"
proof -
  let ?A = "dropWhile isspace c"
  have "rev ?A = takeWhile isspace (rev ?A) @ dropWhile isspace (rev ?A)"
    by simp
  then have "rev (rev ?A) = rev (takeWhile isspace (rev ?A) @ dropWhile isspace (rev ?A))"
    by (rule arg_cong)
  then have "?A = strip c @ rev (takeWhile isspace (rev ?A))"
    by (simp only: rev_rev_ident rev_append strip_def)
  moreover have "c = takeWhile isspace c @ ?A"
    by simp
  ultimately show ?thesis
    by metis
qed

lemma strip_nonempty_iff: "strip c \<noteq> [] \<longleftrightarrow> (\<exists>x\<in>set c. \<not> isspace x)"
proof
  assume ne: "strip c \<noteq> []"
  show "\<exists>x\<in>set c. \<not> isspace x"
  proof (rule ccontr)
    assume "\<not> (\<exists>x\<in>set c. \<not> isspace x)"
    then have "\<forall>x\<in>set c. isspace x"
      by blast
    then have "dropWhile isspace c = []"
      by (simp only: dropWhile_eq_Nil_conv)
    then have "strip c = []"
      by (simp only: strip_def rev.simps dropWhile.simps)
    with ne show False
      by contradiction
  qed
next
  assume "\<exists>x\<in>set c. \<not> isspace x"
  then have "content c \<noteq> []"
    by (auto simp: content_def nonspace_def filter_empty_conv)
  then have "content (strip c) \<noteq> []"
    using content_strip [of c] by simp
  then show "strip c \<noteq> []"
    by (auto simp: content_def)
qed

lemma strip_is_trimmed_core:
  assumes "strip c \<noteq> []"
  shows "strip c \<noteq> [] \<and> \<not> isspace (hd (strip c)) \<and> \<not> isspace (last (strip c))
         \<and> (\<exists>w1 w2. c = w1 @ strip c @ w2
               \<and> (\<forall>x\<in>set w1. isspace x) \<and> (\<forall>x\<in>set w2. isspace x))"
proof -
  from assms trimmed_strip [of c]
  have "\<not> isspace (hd (strip c))" "\<not> isspace (last (strip c))"
    by (auto simp: trimmed_def nonspace_def split: list.splits)
  moreover have "\<forall>x\<in>set (takeWhile isspace c). isspace x"
    by (auto dest: set_takeWhileD)
  moreover have "\<forall>x\<in>set (rev (takeWhile isspace (rev (dropWhile isspace c)))). isspace x"
    by (auto dest: set_takeWhileD)
  ultimately show ?thesis
    using assms strip_decompose [of c] by blast
qed

lemma sentences_of_candidates:
  "list_all2
     (\<lambda>c s. s \<noteq> [] \<and> \<not> isspace (hd s) \<and> \<not> isspace (last s)
        \<and> (\<exists>w1 w2. c = w1 @ s @ w2 \<and> (\<forall>x\<in>set w1. isspace x) \<and> (\<forall>x\<in>set w2. isspace x)))
     (filter (\<lambda>c. \<exists>x\<in>set c. \<not> isspace x) qs)
     (map strip (filter (\<lambda>s. strip s \<noteq> []) qs))"
proof (induction qs)
  case Nil
  show ?case by simp
next
  case (Cons q qs)
  show ?case
  proof (cases "strip q = []")
    case True
    then have "\<not> (\<exists>x\<in>set q. \<not> isspace x)"
      using strip_nonempty_iff [of q] by blast
    with True Cons show ?thesis
      by simp
  next
    case False
    then have "\<exists>x\<in>set q. \<not> isspace x"
      using strip_nonempty_iff [of q] by blast
    with False Cons strip_is_trimmed_core [OF False] show ?thesis
      by simp
  qed
qed

lemma sentences_spec_candidates:
  "map strip (filter (\<lambda>s. strip s \<noteq> []) (re_split xs))
     = map strip (filter (\<lambda>s. strip s \<noteq> []) (spec_candidates xs))"
proof -
  have "\<not> (lookbehind None \<and> xs \<noteq> [] \<and> isspace (hd xs))"
    by (simp add: lookbehind_def)
  then have "map strip (filter (\<lambda>s. strip s \<noteq> []) (re_split xs))
         = filter (\<lambda>s. s \<noteq> []) (map strip (spec_candidates xs))"
    unfolding re_split_def by (intro sentences_related split_related)
  also have "\<dots> = map strip (filter (\<lambda>s. strip s \<noteq> []) (spec_candidates xs))"
    by (simp add: filter_map comp_def)
  finally show ?thesis .
qed

lemma restore_separators_spec_joiner:
  "restore_separators t sep = Inr (spec_joiner (segment True (sub_newlines t)) sep)"
proof -
  have "map strip (filter (\<lambda>s. strip s \<noteq> []) (spec_candidates xs))
      = filter (\<lambda>s. s \<noteq> []) (map spec_trim (spec_candidates xs))" for xs
    by (simp add: filter_map comp_def strip_spec_trim [abs_def])
  then show ?thesis
    by (simp add: restore_separators_eq spec_joiner_def sentences_spec_candidates
        str_join_spec_join)
qed

text \<open>
  Claim C5. The joiner stage works on the segmenter's output \<open>u\<close>. Its candidates are the
  consecutive pieces of \<open>u\<close> cut after each whitespace run that immediately follows \<open>.\<close>,
  \<open>!\<close> or \<open>?\<close>, so the mark stays with the piece before the cut. The list \<open>sentences\<close> of
  the code is, in order and with nothing added, repeated or moved, the candidates that
  have a character other than whitespace, each with the whitespace at its two ends
  removed: a sentence is not empty, starts and ends with a character that is not
  whitespace, and its candidate is the sentence between two runs of whitespace. The
  result is empty when there is no sentence, and otherwise the sentences in that order
  with one copy of the separator between neighbours. It is what steps 2 to 4 of
  section 4.2 of the specification compute.
  In particular \<open>restore_separators("Foo. Bar! Baz?", "\n") = "Foo.\nBar!\nBaz?"\<close>.
\<close>

theorem C5_joiner_refines_spec:
  "(\<exists>u ss r. heuristic_insert_linebreaks (sub_newlines t) = Inr u
        \<and> sentences t = Inr ss
        \<and> restore_separators t sep = Inr r
        \<and> concat (spec_candidates u) = u
        \<and> list_all2
             (\<lambda>c s. s \<noteq> [] \<and> \<not> isspace (hd s) \<and> \<not> isspace (last s)
                \<and> (\<exists>w1 w2. c = w1 @ s @ w2
                      \<and> (\<forall>x\<in>set w1. isspace x) \<and> (\<forall>x\<in>set w2. isspace x)))
             (filter (\<lambda>c. \<exists>x\<in>set c. \<not> isspace x) (spec_candidates u)) ss
        \<and> (ss = [] \<longrightarrow> r = [])
        \<and> (ss \<noteq> [] \<longrightarrow> sep @ r = concat (map (\<lambda>s. sep @ s) ss))
        \<and> r = spec_joiner u sep)
   \<and> restore_separators ''Foo. Bar! Baz?'' [newline] = Inr ''Foo.\<newline>Bar!\<newline>Baz?''"
proof -
  define u where "u = segment True (sub_newlines t)"
  define ss where "ss = map strip (filter (\<lambda>s. strip s \<noteq> []) (spec_candidates u))"
  define r where "r = str_join sep ss"
  have 1: "heuristic_insert_linebreaks (sub_newlines t) = Inr u"
    by (simp add: heuristic_segment u_def)
  have 2: "sentences t = Inr ss"
    by (simp add: sentences_eq sentences_spec_candidates ss_def u_def)
  have 3: "restore_separators t sep = Inr r"
    by (simp add: restore_separators_eq sentences_spec_candidates r_def ss_def u_def)
  have 4: "concat (spec_candidates u) = u"
    by (rule concat_spec_candidates)
  have 5: "list_all2
             (\<lambda>c s. s \<noteq> [] \<and> \<not> isspace (hd s) \<and> \<not> isspace (last s)
                \<and> (\<exists>w1 w2. c = w1 @ s @ w2
                      \<and> (\<forall>x\<in>set w1. isspace x) \<and> (\<forall>x\<in>set w2. isspace x)))
             (filter (\<lambda>c. \<exists>x\<in>set c. \<not> isspace x) (spec_candidates u)) ss"
    unfolding ss_def by (rule sentences_of_candidates)
  have 6: "ss = [] \<longrightarrow> r = []"
    by (simp add: r_def)
  have 7: "ss \<noteq> [] \<longrightarrow> sep @ r = concat (map (\<lambda>s. sep @ s) ss)"
    by (simp add: r_def sep_str_join)
  have 8: "r = spec_joiner u sep"
    using 3 by (simp add: restore_separators_spec_joiner u_def)
  have e: "restore_separators ''Foo. Bar! Baz?'' [newline] = Inr ''Foo.\<newline>Bar!\<newline>Baz?''"
    by code_simp
  from 1 2 3 4 5 6 7 8 e show ?thesis
    by blast
qed

theorem C5_witness:
  "heuristic_insert_linebreaks (sub_newlines ''Ab. cd!  . ef?gh  '') = Inr ''Ab. cd!  . ef?gh  ''
   \<and> spec_candidates ''Ab. cd!  . ef?gh  '' = [''Ab. '', ''cd!  '', ''. '', ''ef?gh  '']
   \<and> sentences ''Ab. cd!  . ef?gh  '' = Inr [''Ab.'', ''cd!'', ''.'', ''ef?gh'']
   \<and> restore_separators ''Ab. cd!  . ef?gh  '' ''|'' = Inr ''Ab.|cd!|.|ef?gh''
   \<and> ''|'' @ ''Ab.|cd!|.|ef?gh'' = concat (map (\<lambda>s. ''|'' @ s) [''Ab.'', ''cd!'', ''.'', ''ef?gh''])"
proof -
  have p: "heuristic_insert_linebreaks (sub_newlines ''Ab. cd!  . ef?gh  '') = Inr ''Ab. cd!  . ef?gh  ''"
    "spec_candidates ''Ab. cd!  . ef?gh  '' = [''Ab. '', ''cd!  '', ''. '', ''ef?gh  '']"
    "sentences ''Ab. cd!  . ef?gh  '' = Inr [''Ab.'', ''cd!'', ''.'', ''ef?gh'']"
    "spec_joiner ''Ab. cd!  . ef?gh  '' ''|'' = ''Ab.|cd!|.|ef?gh''"
    by code_simp+
  from C5_joiner_refines_spec [of "''Ab. cd!  . ef?gh  ''" "''|''"]
  obtain u ss r where a: "heuristic_insert_linebreaks (sub_newlines ''Ab. cd!  . ef?gh  '') = Inr u"
    and b: "sentences ''Ab. cd!  . ef?gh  '' = Inr ss"
    and c: "restore_separators ''Ab. cd!  . ef?gh  '' ''|'' = Inr r"
    and d: "ss \<noteq> [] \<longrightarrow> ''|'' @ r = concat (map (\<lambda>s. ''|'' @ s) ss)"
    and e: "r = spec_joiner u ''|''"
    by blast
  from a p(1) have u: "u = ''Ab. cd!  . ef?gh  ''"
    by simp
  from b p(3) have ss: "ss = [''Ab.'', ''cd!'', ''.'', ''ef?gh'']"
    by simp
  from e u p(4) have r: "r = ''Ab.|cd!|.|ef?gh''"
    by simp
  from d ss r have "''|'' @ ''Ab.|cd!|.|ef?gh'' = concat (map (\<lambda>s. ''|'' @ s) [''Ab.'', ''cd!'', ''.'', ''ef?gh''])"
    by blast
  with p(1-3) c r show ?thesis
    by blast
qed

end
